theory Spec2Isabelle
  imports Main "HOL-Library.Word"
begin

section \<open>The sbrk-based allocator of memoryalloc.c\<close>

text \<open>
  The allocator keeps a singly linked list of block headers in the region below the
  program break. The model is sequential: \<open>pthread_mutex_lock\<close> and
  \<open>pthread_mutex_unlock\<close> bracket every access to the shared state and are not
  represented. \<open>size_t\<close> and pointers are 64-bit words (LP64), \<open>unsigned\<close> is a
  32-bit word, and all pointer arithmetic wraps as the machine's does.
\<close>

type_synonym addr = "64 word"
type_synonym size_t = "64 word"

subsection \<open>Layout of \<open>union header\<close>\<close>

text \<open>
  C lays a struct out member by member, each at the next offset that is a multiple of its
  alignment, and rounds the size up to the largest alignment; a union is as large as its
  largest member, rounded up likewise. On LP64 \<open>size_t\<close> and pointers have size and
  alignment 8, \<open>unsigned\<close> has 4, and \<open>char[16]\<close> has size 16 and alignment 1.
\<close>

definition align_up :: "nat \<Rightarrow> nat \<Rightarrow> nat" where
  "align_up n a = ((n + a - 1) div a) * a"

text \<open>The members of \<open>metadata\<close> as (size, alignment): \<open>size\<close>, \<open>is_free\<close>, \<open>next\<close>.\<close>

definition metadata_members :: "(nat \<times> nat) list" where
  "metadata_members = [(8, 8), (4, 4), (8, 8)]"

fun struct_end :: "nat \<Rightarrow> (nat \<times> nat) list \<Rightarrow> nat" where
  "struct_end off [] = off"
| "struct_end off ((sz, al) # ms) = struct_end (align_up off al + sz) ms"

definition struct_align :: "(nat \<times> nat) list \<Rightarrow> nat" where
  "struct_align ms = fold max (map snd ms) 1"

definition sizeof_struct :: "(nat \<times> nat) list \<Rightarrow> nat" where
  "sizeof_struct ms = align_up (struct_end 0 ms) (struct_align ms)"

text \<open>\<open>typedef char alignment[16]\<close>: sixteen bytes, alignment 1.\<close>

definition sizeof_alignment :: nat where
  "sizeof_alignment = 16"

definition header_layout :: "nat" where
  "header_layout =
     align_up (max (sizeof_struct metadata_members) sizeof_alignment)
              (max (struct_align metadata_members) 1)"

definition sizeof_header_t :: "64 word" where
  "sizeof_header_t = of_nat header_layout"

subsection \<open>The state\<close>

text \<open>
  The globals \<open>head\<close> and \<open>tail\<close>, the program break with the highest break the
  environment grants, one store per header field (a header is addressed by where it
  starts), and the bytes of memory that \<open>memset\<close> and \<open>memcpy\<close> write.
  Headers that start at different addresses are separate objects here, and payload
  bytes are separate from header fields. In memory they are bytes of one region, so
  this is exact only where the listed blocks do not overlap, which is what \<open>arena\<close>
  below provides; a statement that a store leaves the other blocks alone assumes it.
\<close>

record state =
  head :: addr
  tail :: addr
  brk :: addr
  brk_max :: addr
  metadata_size :: "addr \<Rightarrow> size_t"
  metadata_is_free :: "addr \<Rightarrow> 32 word"
  metadata_next :: "addr \<Rightarrow> addr"
  mem :: "addr \<Rightarrow> 8 word"

subsection \<open>The arena growth primitive\<close>

text \<open>
  Modelled from the spec: \<open>sbrk\<close> is the C library's, not this repository's. Following
  the source's comment and the spec's interface (grow, shrink, current boundary):
  \<open>sbrk(0)\<close> is the current break; \<open>sbrk(x)\<close> moves the break by the signed
  increment \<open>x\<close> and returns the previous break; it returns \<open>(void * ) -1\<close> and leaves
  the break alone when the request cannot be met, here when the new break would lie
  below 0 or above \<open>brk_max\<close>.
\<close>

definition sbrk_fails :: "64 word \<Rightarrow> state \<Rightarrow> bool" where
  "sbrk_fails incr s \<longleftrightarrow>
     incr \<noteq> 0 \<and> (uint (brk s) + sint incr < 0 \<or> uint (brk_max s) < uint (brk s) + sint incr)"

definition sbrk :: "64 word \<Rightarrow> state \<Rightarrow> addr \<times> state" where
  "sbrk incr s = (if sbrk_fails incr s then (- 1, s) else (brk s, s\<lparr>brk := brk s + incr\<rparr>))"

subsection \<open>\<open>memset\<close> and \<open>memcpy\<close>\<close>

definition memset :: "state \<Rightarrow> addr \<Rightarrow> 8 word \<Rightarrow> size_t \<Rightarrow> state" where
  "memset s p c n = s\<lparr>mem := (\<lambda>a. if unat (a - p) < unat n then c else mem s a)\<rparr>"

definition memcpy :: "state \<Rightarrow> addr \<Rightarrow> addr \<Rightarrow> size_t \<Rightarrow> state" where
  "memcpy s dst src n =
     s\<lparr>mem := (\<lambda>a. if unat (a - dst) < unat n then mem s (src + (a - dst)) else mem s a)\<rparr>"

subsection \<open>\<open>check_for_block\<close>\<close>

text \<open>The \<open>while (curr)\<close> loop; on a cyclic list it need not return, which is \<open>None\<close>.\<close>

partial_function (option) check_for_block_loop :: "state \<Rightarrow> size_t \<Rightarrow> addr \<Rightarrow> addr option" where
  "check_for_block_loop s sz cur =
     (if cur = 0 then Some 0
      else if metadata_is_free s cur \<noteq> 0 \<and> sz \<le> metadata_size s cur then Some cur
      else check_for_block_loop s sz (metadata_next s cur))"

definition check_for_block :: "state \<Rightarrow> size_t \<Rightarrow> addr option" where
  "check_for_block s sz = check_for_block_loop s sz (head s)"

subsection \<open>\<open>malloc\<close>\<close>

definition malloc :: "state \<Rightarrow> size_t \<Rightarrow> (addr \<times> state) option" where
  "malloc s sz =
     (if sz = 0 then Some (0, s)
      else case check_for_block s sz of
        None \<Rightarrow> None
      | Some header \<Rightarrow>
          if header \<noteq> 0
          then Some (header + sizeof_header_t,
                     s\<lparr>metadata_is_free := (metadata_is_free s)(header := 0)\<rparr>)
          else
            let total_size = sizeof_header_t + sz;
                (block, s1) = sbrk total_size s
            in if block = - 1 then Some (0, s1)
               else
                 let header = block;
                     s2 = s1\<lparr>metadata_size := (metadata_size s1)(header := sz)\<rparr>;
                     s3 = s2\<lparr>metadata_is_free := (metadata_is_free s2)(header := 0)\<rparr>;
                     s4 = s3\<lparr>metadata_next := (metadata_next s3)(header := 0)\<rparr>;
                     s5 = (if head s4 = 0 then s4\<lparr>head := header\<rparr> else s4);
                     s6 = (if tail s5 \<noteq> 0
                           then s5\<lparr>metadata_next := (metadata_next s5)(tail s5 := header)\<rparr>
                           else s5);
                     s7 = s6\<lparr>tail := header\<rparr>
                 in Some (header + sizeof_header_t, s7))"

subsection \<open>\<open>free\<close>\<close>

text \<open>The \<open>while (tmp)\<close> loop that unlinks the tail.\<close>

partial_function (option) free_loop :: "state \<Rightarrow> addr \<Rightarrow> state option" where
  "free_loop s tmp =
     (if tmp = 0 then Some s
      else
        let s1 = (if metadata_next s tmp = tail s
                  then (s\<lparr>metadata_next := (metadata_next s)(tmp := 0)\<rparr>)\<lparr>tail := tmp\<rparr>
                  else s)
        in free_loop s1 (metadata_next s1 tmp))"

definition free :: "state \<Rightarrow> addr \<Rightarrow> state option" where
  "free s block =
     (if block = 0 then Some s
      else
        let header = block - sizeof_header_t;
            (progbrk, s0) = sbrk 0 s
        in if block + metadata_size s0 header = progbrk
           then
             (case (if head s0 = tail s0 then Some (s0\<lparr>head := 0, tail := 0\<rparr>)
                    else free_loop s0 (head s0)) of
                None \<Rightarrow> None
              | Some s1 \<Rightarrow> Some (snd (sbrk (0 - sizeof_header_t - metadata_size s1 header) s1)))
           else Some (s0\<lparr>metadata_is_free := (metadata_is_free s0)(header := 1)\<rparr>))"

subsection \<open>\<open>calloc\<close>\<close>

definition calloc :: "state \<Rightarrow> size_t \<Rightarrow> size_t \<Rightarrow> (addr \<times> state) option" where
  "calloc s num esize =
     (if num = 0 \<or> esize = 0 then Some (0, s)
      else
        let total = num * esize
        in if esize \<noteq> total div num then Some (0, s)
           else case malloc s total of
             None \<Rightarrow> None
           | Some (block, s1) \<Rightarrow>
               if block = 0 then Some (0, s1) else Some (block, memset s1 block 0 total))"

subsection \<open>\<open>realloc\<close>\<close>

definition realloc :: "state \<Rightarrow> addr \<Rightarrow> size_t \<Rightarrow> (addr \<times> state) option" where
  "realloc s block sz =
     (if block = 0 \<or> sz = 0 then malloc s sz
      else
        let header = block - sizeof_header_t
        in if sz \<le> metadata_size s header then Some (block, s)
           else case malloc s sz of
             None \<Rightarrow> None
           | Some (reblock, s1) \<Rightarrow>
               if reblock \<noteq> 0
               then (case free (memcpy s1 reblock block (metadata_size s1 header)) block of
                       None \<Rightarrow> None
                     | Some s2 \<Rightarrow> Some (reblock, s2))
               else Some (reblock, s1))"

subsection \<open>Lists of blocks\<close>

text \<open>\<open>path nxt a bs b\<close>: following \<open>nxt\<close> from \<open>a\<close> visits the non-null nodes \<open>bs\<close>
  in order and arrives at \<open>b\<close>.\<close>

fun path :: "(addr \<Rightarrow> addr) \<Rightarrow> addr \<Rightarrow> addr list \<Rightarrow> addr \<Rightarrow> bool" where
  "path nxt a [] b \<longleftrightarrow> a = b"
| "path nxt a (x # xs) b \<longleftrightarrow> a = x \<and> a \<noteq> 0 \<and> path nxt (nxt a) xs b"

text \<open>A block fits a request when it is marked free and is large enough.\<close>

definition fits :: "state \<Rightarrow> size_t \<Rightarrow> addr \<Rightarrow> bool" where
  "fits s sz b \<longleftrightarrow> metadata_is_free s b \<noteq> 0 \<and> sz \<le> metadata_size s b"

text \<open>
  The arena as the allocator leaves it: the list from \<open>head\<close> is \<open>bs\<close> and ends at
  \<open>tail\<close>; each block's payload ends where the next header starts, the last one's at the
  break (in unbounded arithmetic: nothing wraps); the break is not null and within the
  environment's limit, which lies in the lower half of the address space.
\<close>

fun contiguous :: "state \<Rightarrow> addr list \<Rightarrow> bool" where
  "contiguous s [] \<longleftrightarrow> True"
| "contiguous s [a] \<longleftrightarrow>
     unat a + unat sizeof_header_t + unat (metadata_size s a) = unat (brk s)"
| "contiguous s (a # b # bs) \<longleftrightarrow>
     unat a + unat sizeof_header_t + unat (metadata_size s a) = unat b \<and> contiguous s (b # bs)"

definition arena :: "state \<Rightarrow> addr list \<Rightarrow> bool" where
  "arena s bs \<longleftrightarrow>
     path (metadata_next s) (head s) bs 0 \<and>
     tail s = (if bs = [] then 0 else last bs) \<and>
     contiguous s bs \<and>
     brk s \<noteq> 0 \<and> unat (brk s) \<le> unat (brk_max s) \<and> unat (brk_max s) < 2 ^ 63"

subsection \<open>Example arenas\<close>

text \<open>No block yet; the break is at 4096 and may rise to 4200.\<close>

definition arena0 :: state where
  "arena0 = \<lparr>head = 0, tail = 0, brk = 4096, brk_max = 4200,
     metadata_size = (\<lambda>_. 0), metadata_is_free = (\<lambda>_. 0), metadata_next = (\<lambda>_. 0),
     mem = (\<lambda>_. 0)\<rparr>"

text \<open>After \<open>malloc(10)\<close>: block A at 4096.\<close>

definition arena_a :: state where
  "arena_a = \<lparr>head = 4096, tail = 4096, brk = 4130, brk_max = 4200,
     metadata_size = (\<lambda>_. 0)(4096 := 10), metadata_is_free = (\<lambda>_. 0),
     metadata_next = (\<lambda>_. 0), mem = (\<lambda>_. 0)\<rparr>"

text \<open>After a further \<open>malloc(20)\<close>: block A at 4096, block B at 4130.\<close>

definition arena_ab :: state where
  "arena_ab = \<lparr>head = 4096, tail = 4130, brk = 4174, brk_max = 4200,
     metadata_size = (\<lambda>_. 0)(4096 := 10, 4130 := 20), metadata_is_free = (\<lambda>_. 0),
     metadata_next = (\<lambda>_. 0)(4096 := 4130), mem = (\<lambda>_. 0)\<rparr>"

text \<open>
  \<open>arena_ab\<close> after \<open>malloc(SIZE_MAX - 23)\<close>, where header size plus request wraps to
  0, and after a further \<open>malloc(1)\<close>.
\<close>

definition arena_wrap1 :: state where
  "arena_wrap1 = arena_ab\<lparr>tail := 4174,
     metadata_size := (metadata_size arena_ab)(4174 := 18446744073709551592),
     metadata_next := (metadata_next arena_ab)(4130 := 4174)\<rparr>"

definition arena_wrap2 :: state where
  "arena_wrap2 = arena_ab\<lparr>tail := 4174, brk := 4199,
     metadata_size := (metadata_size arena_ab)(4174 := 1),
     metadata_next := (metadata_next arena_ab)(4130 := 4174, 4174 := 4174)\<rparr>"

section \<open>Properties\<close>

lemma header_layout_val: "header_layout = 24"
  by (simp add: header_layout_def sizeof_struct_def struct_align_def metadata_members_def
      sizeof_alignment_def align_up_def)

lemma sizeof_header_t_val: "sizeof_header_t = 24"
  by (simp add: sizeof_header_t_def header_layout_val)

subsection \<open>The search loop\<close>

lemma check_for_block_loop_none:
  "path (metadata_next s) a bs 0 \<Longrightarrow> \<forall>b\<in>set bs. \<not> fits s sz b \<Longrightarrow>
   check_for_block_loop s sz a = Some 0"
proof (induction bs arbitrary: a)
  case Nil
  then show ?case by (simp add: check_for_block_loop.simps)
next
  case (Cons x xs)
  then have "a = x" "a \<noteq> 0" "\<not> fits s sz a" "path (metadata_next s) (metadata_next s a) xs 0"
    by auto
  moreover have "check_for_block_loop s sz (metadata_next s a) = Some 0"
    using Cons by auto
  ultimately show ?case
    by (subst check_for_block_loop.simps) (simp add: fits_def)
qed

lemma check_for_block_loop_first:
  "path (metadata_next s) a pre h \<Longrightarrow> \<forall>b\<in>set pre. \<not> fits s sz b \<Longrightarrow> h \<noteq> 0 \<Longrightarrow>
   fits s sz h \<Longrightarrow> check_for_block_loop s sz a = Some h"
proof (induction pre arbitrary: a)
  case Nil
  then show ?case by (subst check_for_block_loop.simps) (simp add: fits_def)
next
  case (Cons x xs)
  then have "a = x" "a \<noteq> 0" "\<not> fits s sz a" by auto
  moreover have "check_for_block_loop s sz (metadata_next s a) = Some h"
    using Cons by auto
  ultimately show ?case
    by (subst check_for_block_loop.simps) (auto simp: fits_def)
qed

lemma sbrk_zero: "sbrk 0 s = (brk s, s)"
  by (simp add: sbrk_def sbrk_fails_def)

lemma malloc_sbrk_fails:
  assumes "sz \<noteq> 0"
    and "path (metadata_next s) (head s) bs 0"
    and "\<forall>b\<in>set bs. \<not> fits s sz b"
    and "sbrk_fails (sizeof_header_t + sz) s"
  shows "malloc s sz = Some (0, s)"
proof -
  have "check_for_block s sz = Some 0"
    unfolding check_for_block_def using assms(2,3) by (rule check_for_block_loop_none)
  then show ?thesis using assms(1,4) by (simp add: malloc_def sbrk_def)
qed

lemma calloc_overflow_check:
  fixes num esize :: "64 word"
  assumes "num \<noteq> 0"
  shows "(esize \<noteq> (num * esize) div num) \<longleftrightarrow> 2 ^ 64 \<le> unat num * unat esize"
proof -
  have n: "0 < unat num" using assms by (simp add: unat_gt_0)
  have m: "unat (num * esize) = (unat num * unat esize) mod 2 ^ 64"
    by (simp add: unat_word_ariths)
  have d: "unat ((num * esize) div num) = unat (num * esize) div unat num"
    by (simp add: unat_div)
  show ?thesis
  proof (cases "unat num * unat esize < 2 ^ 64")
    case True
    then have "unat ((num * esize) div num) = unat esize"
      using n by (simp add: d m)
    then have "(num * esize) div num = esize" by (simp add: word_unat_eq_iff)
    with True show ?thesis by simp
  next
    case False
    then have "(unat num * unat esize) mod 2 ^ 64 < unat esize * unat num"
      by (metis mod_less_divisor mult.commute not_less order_less_le_trans zero_less_numeral zero_less_power)
    then have "unat ((num * esize) div num) < unat esize"
      using n by (simp add: d m less_mult_imp_div_less)
    then have "(num * esize) div num \<noteq> esize" by auto
    with False show ?thesis by auto
  qed
qed

subsection \<open>Contiguous arenas and the unlinking loop\<close>

lemma unat_sizeof_header_t: "unat sizeof_header_t = 24"
  by (simp add: sizeof_header_t_val)

lemma contiguous_tl: "contiguous s (a # bs) \<Longrightarrow> contiguous s bs"
  by (cases bs) auto

lemma contiguous_end_le:
  "contiguous s bs \<Longrightarrow>
   \<forall>b\<in>set bs. unat b + unat sizeof_header_t + unat (metadata_size s b) \<le> unat (brk s)"
proof (induction bs)
  case Nil
  then show ?case by simp
next
  case (Cons a bs)
  then have rest: "\<forall>b\<in>set bs. unat b + unat sizeof_header_t + unat (metadata_size s b) \<le> unat (brk s)"
    using contiguous_tl by blast
  have "unat a + unat sizeof_header_t + unat (metadata_size s a) \<le> unat (brk s)"
  proof (cases bs)
    case Nil
    then show ?thesis using Cons.prems by simp
  next
    case c: (Cons c cs)
    then have "unat c + unat sizeof_header_t + unat (metadata_size s c) \<le> unat (brk s)"
      using rest by simp
    then show ?thesis using Cons.prems c by simp
  qed
  with rest show ?case by simp
qed

lemma contiguous_end_less:
  "contiguous s bs \<Longrightarrow>
   \<forall>b\<in>set (butlast bs). unat b + unat sizeof_header_t + unat (metadata_size s b) < unat (brk s)"
proof (induction bs)
  case Nil
  then show ?case by simp
next
  case (Cons a bs)
  show ?case
  proof (cases bs)
    case Nil
    then show ?thesis by simp
  next
    case c: (Cons c cs)
    have rest: "\<forall>b\<in>set (butlast bs). unat b + unat sizeof_header_t + unat (metadata_size s b) < unat (brk s)"
      using Cons contiguous_tl by blast
    have "unat c + unat sizeof_header_t + unat (metadata_size s c) \<le> unat (brk s)"
      using contiguous_end_le [OF Cons.prems] c by simp
    then have "unat a + unat sizeof_header_t + unat (metadata_size s a) < unat (brk s)"
      using Cons.prems c by (simp add: unat_sizeof_header_t)
    with rest show ?thesis using c by simp
  qed
qed

lemma contiguous_less:
  "contiguous s (a # bs) \<Longrightarrow> \<forall>b\<in>set bs. unat a < unat b"
proof (induction bs arbitrary: a)
  case Nil
  then show ?case by simp
next
  case (Cons c cs)
  have ac: "unat a < unat c"
    using Cons.prems by (simp add: unat_sizeof_header_t)
  have "\<forall>b\<in>set cs. unat c < unat b" using Cons by simp
  with ac show ?case by auto
qed

lemma contiguous_distinct: "contiguous s bs \<Longrightarrow> distinct bs"
proof (induction bs)
  case Nil
  then show ?case by simp
next
  case (Cons a bs)
  have "a \<notin> set bs" using contiguous_less [OF Cons.prems] by fastforce
  moreover have "contiguous s bs" using Cons.prems by (rule contiguous_tl)
  ultimately show ?case using Cons.IH by simp
qed

lemma path_hd: "path nxt a bs b \<Longrightarrow> bs \<noteq> [] \<Longrightarrow> a = hd bs \<and> a \<noteq> 0"
  by (cases bs) auto

lemma path_snoc: "path nxt a (xs @ [p]) b \<longleftrightarrow> path nxt a xs p \<and> p \<noteq> 0 \<and> nxt p = b"
  by (induction xs arbitrary: a) auto

text \<open>The loop of \<open>free\<close> walks to the node before the tail, cuts it off and stops.\<close>

lemma free_loop_unlink:
  "path (metadata_next s) a (xs @ [p]) (tail s) \<Longrightarrow> tail s \<notin> set (xs @ [p]) \<Longrightarrow>
   free_loop s a = Some (s\<lparr>metadata_next := (metadata_next s)(p := 0), tail := p\<rparr>)"
proof (induction xs arbitrary: a)
  case Nil
  then have "a = p" "p \<noteq> 0" "metadata_next s p = tail s" by auto
  then show ?case
    by (subst free_loop.simps) (simp add: free_loop.simps)
next
  case (Cons x xs)
  then have a: "a = x" "x \<noteq> 0" and p: "path (metadata_next s) (metadata_next s x) (xs @ [p]) (tail s)"
    by auto
  from p have "metadata_next s x = hd (xs @ [p])" using path_hd by blast
  then have "metadata_next s x \<in> set (xs @ [p])" by (metis hd_in_set snoc_eq_iff_butlast)
  then have ne: "metadata_next s x \<noteq> tail s" using Cons.prems(2) by auto
  have step: "free_loop s a = free_loop s (metadata_next s x)"
    using a ne by (subst free_loop.simps) simp
  have "tail s \<notin> set (xs @ [p])" using Cons.prems(2) by simp
  then show ?case unfolding step by (rule Cons.IH [OF p])
qed

lemma sint_small:
  fixes x :: "64 word"
  assumes "unat x < 2 ^ 63"
  shows "sint x = int (unat x)"
proof -
  have "int (unat x) < 2 ^ 63" using assms by (simp only: of_nat_less_numeral_power_cancel_iff)
  moreover have "- (2 ^ 63) \<le> int (unat x)" by (rule order_trans [of _ 0]) simp_all
  ultimately have "signed_take_bit 63 (int (unat x)) = int (unat x)"
    by (rule signed_take_bit_int_eq_self [rotated])
  then show ?thesis by (simp add: sint_uint)
qed

lemma sint_neg_small:
  fixes x :: "64 word"
  assumes "unat x < 2 ^ 63"
  shows "sint (0 - x) = - int (unat x)"
proof -
  have lt: "int (unat x) < 2 ^ 63" using assms by (simp only: of_nat_less_numeral_power_cancel_iff)
  have "sint (- x) = signed_take_bit 63 (- sint x)" by (simp add: sint_word_minus)
  also have "\<dots> = signed_take_bit 63 (- int (unat x))" using assms by (simp only: sint_small)
  also have "\<dots> = - int (unat x)"
  proof (rule signed_take_bit_int_eq_self)
    show "- (2 ^ 63) \<le> - int (unat x)" using lt by linarith
    show "- int (unat x) < 2 ^ 63" by (rule le_less_trans [of _ 0]) simp_all
  qed
  finally show ?thesis by simp
qed

lemma shrink_ok:
  assumes e: "unat h + unat sizeof_header_t + unat (metadata_size s h) = unat (brk s)"
    and "unat (brk s) \<le> unat (brk_max s)" and "unat (brk_max s) < 2 ^ 63"
  shows "\<not> sbrk_fails (0 - sizeof_header_t - metadata_size s h) s"
proof -
  have lt: "unat sizeof_header_t + unat (metadata_size s h) < 2 ^ 63" using assms by linarith
  then have u: "unat (sizeof_header_t + metadata_size s h) = unat sizeof_header_t + unat (metadata_size s h)"
    by (simp add: unat_add_lem [THEN iffD1])
  have "0 - sizeof_header_t - metadata_size s h = 0 - (sizeof_header_t + metadata_size s h)"
    by simp
  then have "sint (0 - sizeof_header_t - metadata_size s h) =
             - int (unat sizeof_header_t + unat (metadata_size s h))"
    using sint_neg_small [of "sizeof_header_t + metadata_size s h"] lt u by simp
  moreover have "uint (brk s) = int (unat (brk s))" "uint (brk_max s) = int (unat (brk_max s))"
    by simp_all
  ultimately show ?thesis using assms unfolding sbrk_fails_def by linarith
qed

lemma sbrk_ok: "\<not> sbrk_fails incr s \<Longrightarrow> sbrk incr s = (brk s, s\<lparr>brk := brk s + incr\<rparr>)"
  by (simp add: sbrk_def)

lemma free_at_break_unfold:
  assumes "block \<noteq> 0"
    and "block + metadata_size s (block - sizeof_header_t) = brk s"
  shows "free s block =
     (case (if head s = tail s then Some (s\<lparr>head := 0, tail := 0\<rparr>)
            else free_loop s (head s)) of
        None \<Rightarrow> None
      | Some s1 \<Rightarrow>
          Some (snd (sbrk (0 - sizeof_header_t - metadata_size s1 (block - sizeof_header_t)) s1)))"
  using assms by (simp add: free_def sbrk_zero)

text \<open>Releasing the block that ends at the break.\<close>

lemma free_at_break_lemma:
  assumes ar: "arena s bs" and hb: "h \<in> set bs"
    and e: "h + sizeof_header_t + metadata_size s h = brk s"
  shows "h = last bs \<and>
     free s (h + sizeof_header_t) =
       Some (if head s = tail s
             then s\<lparr>head := 0, tail := 0,
                    brk := brk s - (sizeof_header_t + metadata_size s h)\<rparr>
             else s\<lparr>metadata_next := (metadata_next s)(last (butlast bs) := 0),
                    tail := last (butlast bs),
                    brk := brk s - (sizeof_header_t + metadata_size s h)\<rparr>) \<and>
     (head s = tail s \<longleftrightarrow> bs = [h]) \<and>
     (head s \<noteq> tail s \<longrightarrow> metadata_next s (last (butlast bs)) = h)"
proof -
  from ar have pth: "path (metadata_next s) (head s) bs 0"
    and tl: "tail s = (if bs = [] then 0 else last bs)"
    and cont: "contiguous s bs"
    and lim: "unat (brk s) \<le> unat (brk_max s)" "unat (brk_max s) < 2 ^ 63"
    by (simp_all add: arena_def)
  have ne: "bs \<noteq> []" using hb by auto
  have le: "unat h + unat sizeof_header_t + unat (metadata_size s h) \<le> unat (brk s)"
    using contiguous_end_le [OF cont] hb by blast
  have "(2::nat) ^ 63 < 2 ^ 64" by simp
  then have b64: "unat (brk s) < 2 ^ 64" using lim by linarith
  have u1: "unat (h + sizeof_header_t) = unat h + unat sizeof_header_t"
    using le b64 by (intro unat_add_lem [THEN iffD1]) simp
  have u2: "unat (h + sizeof_header_t + metadata_size s h) =
            unat h + unat sizeof_header_t + unat (metadata_size s h)"
    using le b64 u1 by (intro unat_add_lem [THEN iffD1, THEN trans]) simp_all
  have eq: "unat h + unat sizeof_header_t + unat (metadata_size s h) = unat (brk s)"
    using e u2 by simp
  have "h \<notin> set (butlast bs)" using contiguous_end_less [OF cont] eq by fastforce
  moreover have "bs = butlast bs @ [last bs]" using ne by simp
  ultimately have hl: "h = last bs" using hb by (metis Un_iff empty_iff empty_set set_ConsD set_append)
  have th: "tail s = h" using tl ne hl by simp
  have bne: "h + sizeof_header_t \<noteq> 0"
    using u1 by (metis add_is_0 unat_0 unat_sizeof_header_t zero_neq_numeral)
  have hdr: "h + sizeof_header_t - sizeof_header_t = h" by simp
  have unf: "free s (h + sizeof_header_t) =
     (case (if head s = tail s then Some (s\<lparr>head := 0, tail := 0\<rparr>)
            else free_loop s (head s)) of
        None \<Rightarrow> None
      | Some s1 \<Rightarrow> Some (snd (sbrk (0 - sizeof_header_t - metadata_size s1 h) s1)))"
    using free_at_break_unfold [OF bne, of s] e unfolding hdr by blast
  have ok: "\<not> sbrk_fails (0 - sizeof_header_t - metadata_size s h) s"
    using eq lim by (rule shrink_ok)
  have dist: "distinct bs" using cont by (rule contiguous_distinct)
  have hh: "head s = hd bs" "hd bs \<noteq> 0" using path_hd [OF pth ne] by auto
  have amt: "brk s + (0 - sizeof_header_t - metadata_size s h) =
             brk s - (sizeof_header_t + metadata_size s h)" by simp
  show ?thesis
  proof (cases "butlast bs = []")
    case True
    then have bs: "bs = [h]" using hl ne by (metis append_butlast_last_id append_Nil)
    then have same: "head s = tail s" using hh th by simp
    have ok': "\<not> sbrk_fails (0 - sizeof_header_t - metadata_size s h) (s\<lparr>head := 0, tail := 0\<rparr>)"
      using ok by (simp add: sbrk_fails_def)
    have "free s (h + sizeof_header_t) =
          Some (s\<lparr>head := 0, tail := 0, brk := brk s - (sizeof_header_t + metadata_size s h)\<rparr>)"
      unfolding unf using same sbrk_ok [OF ok'] by (simp add: amt)
    then show ?thesis using same bs by simp
  next
    case False
    define p where "p = last (butlast bs)"
    define xs where "xs = butlast (butlast bs)"
    have bs: "bs = (xs @ [p]) @ [h]"
      using False ne hl by (simp add: p_def xs_def)
    have pp: "path (metadata_next s) (head s) (xs @ [p]) h" and hn: "h \<noteq> 0"
      using pth unfolding bs path_snoc [of _ _ "xs @ [p]"] by simp_all
    have notin: "h \<notin> set (xs @ [p])" using dist unfolding bs by auto
    have "hd bs \<in> set (xs @ [p])" unfolding bs by (cases xs) simp_all
    then have diff: "head s \<noteq> tail s" using hh th notin by auto
    have succ: "metadata_next s p = h" using pp unfolding path_snoc by simp
    have loop: "free_loop s (head s) =
                Some (s\<lparr>metadata_next := (metadata_next s)(p := 0), tail := p\<rparr>)"
      using pp notin unfolding th [symmetric] by (rule free_loop_unlink)
    have ok': "\<not> sbrk_fails (0 - sizeof_header_t - metadata_size s h)
                 (s\<lparr>metadata_next := (metadata_next s)(p := 0), tail := p\<rparr>)"
      using ok by (simp add: sbrk_fails_def)
    have "free s (h + sizeof_header_t) =
          Some (s\<lparr>metadata_next := (metadata_next s)(p := 0), tail := p,
                  brk := brk s - (sizeof_header_t + metadata_size s h)\<rparr>)"
      unfolding unf using diff loop sbrk_ok [OF ok'] by (simp add: amt)
    moreover have "bs \<noteq> [h]" using bs by simp
    ultimately show ?thesis using hl diff succ by (simp add: p_def)
  qed
qed

text \<open>Carving a new block at the break.\<close>

lemma malloc_carve:
  assumes "sz \<noteq> 0"
    and "path (metadata_next s) (head s) bs 0"
    and "\<forall>b\<in>set bs. \<not> fits s sz b"
    and "\<not> sbrk_fails (sizeof_header_t + sz) s"
    and "brk s \<noteq> - 1"
  shows "malloc s sz =
     Some (brk s + sizeof_header_t,
           s\<lparr>brk := brk s + (sizeof_header_t + sz),
              metadata_size := (metadata_size s)(brk s := sz),
              metadata_is_free := (metadata_is_free s)(brk s := 0),
              metadata_next := (if tail s \<noteq> 0
                                then (metadata_next s)(brk s := 0, tail s := brk s)
                                else (metadata_next s)(brk s := 0)),
              head := (if head s = 0 then brk s else head s),
              tail := brk s\<rparr>)"
proof -
  have "check_for_block s sz = Some 0"
    unfolding check_for_block_def using assms(2,3) by (rule check_for_block_loop_none)
  then show ?thesis using assms(1,5) sbrk_ok [OF assms(4)]
    by (simp add: malloc_def Let_def)
qed

subsection \<open>Requests within range keep the arena\<close>

lemma contiguous_cong:
  "\<forall>a\<in>set bs. metadata_size s' a = metadata_size s a \<Longrightarrow> brk s' = brk s \<Longrightarrow>
   contiguous s' bs = contiguous s bs"
  by (induction s bs rule: contiguous.induct) auto

lemma contiguous_snoc:
  assumes "contiguous s bs"
    and "\<forall>a\<in>set bs. metadata_size s' a = metadata_size s a"
    and "unat b = unat (brk s)"
    and "unat b + unat sizeof_header_t + unat (metadata_size s' b) = unat (brk s')"
  shows "contiguous s' (bs @ [b])"
  using assms by (induction s bs rule: contiguous.induct) auto

lemma contiguous_butlast:
  assumes "contiguous s (bs @ [h])"
    and "\<forall>a\<in>set bs. metadata_size s' a = metadata_size s a"
    and "unat (brk s') = unat h"
  shows "contiguous s' bs"
  using assms by (induction s bs rule: contiguous.induct) auto

lemma path_upd_other: "b \<notin> set bs \<Longrightarrow> path (nxt(b := v)) a bs c = path nxt a bs c"
  by (induction bs arbitrary: a) auto

lemma path_upd_last:
  "path nxt a (xs @ [p]) c \<Longrightarrow> p \<notin> set xs \<Longrightarrow> path (nxt(p := d)) a (xs @ [p]) d"
  by (induction xs arbitrary: a) auto

lemma check_for_block_loop_total:
  "path (metadata_next s) a bs 0 \<Longrightarrow>
   (check_for_block_loop s sz a = Some 0 \<and> (\<forall>b\<in>set bs. \<not> fits s sz b)) \<or>
   (\<exists>h. check_for_block_loop s sz a = Some h \<and> h \<noteq> 0 \<and> h \<in> set bs \<and> fits s sz h)"
proof (induction bs arbitrary: a)
  case Nil
  then show ?case by (simp add: check_for_block_loop.simps)
next
  case (Cons x xs)
  then have a: "a = x" "a \<noteq> 0" and p: "path (metadata_next s) (metadata_next s a) xs 0" by auto
  show ?case
  proof (cases "fits s sz a")
    case True
    then have "check_for_block_loop s sz a = Some a"
      using a by (subst check_for_block_loop.simps) (simp add: fits_def)
    then show ?thesis using a True by simp
  next
    case False
    then have "check_for_block_loop s sz a = check_for_block_loop s sz (metadata_next s a)"
      using a by (subst check_for_block_loop.simps) (auto simp: fits_def)
    then show ?thesis using Cons.IH [OF p] False a by auto
  qed
qed

lemma grow_ok:
  assumes nf: "\<not> sbrk_fails (sizeof_header_t + sz) s"
    and rng: "unat sz + 24 < 2 ^ 63"
    and lim: "unat (brk_max s) < 2 ^ 63"
  shows "unat (brk s + (sizeof_header_t + sz)) = unat (brk s) + unat sizeof_header_t + unat sz
         \<and> unat (brk s) + unat sizeof_header_t + unat sz \<le> unat (brk_max s)"
proof -
  have p: "(2::nat) ^ 63 < 2 ^ 64" by simp
  have "unat sizeof_header_t + unat sz < 2 ^ 64"
    using rng p by (simp add: unat_sizeof_header_t)
  then have tot: "unat (sizeof_header_t + sz) = unat sizeof_header_t + unat sz"
    by (simp add: unat_add_lem [THEN iffD1])
  then have small: "unat (sizeof_header_t + sz) < 2 ^ 63"
    using rng by (simp add: unat_sizeof_header_t)
  have nz: "sizeof_header_t + sz \<noteq> 0"
    using tot by (metis add_is_0 unat_0 unat_sizeof_header_t zero_neq_numeral)
  have "sint (sizeof_header_t + sz) = int (unat sizeof_header_t + unat sz)"
    using sint_small [OF small] tot by simp
  moreover have "uint (brk s) = int (unat (brk s))" "uint (brk_max s) = int (unat (brk_max s))"
    by simp_all
  ultimately have le: "unat (brk s) + unat sizeof_header_t + unat sz \<le> unat (brk_max s)"
    using nf nz unfolding sbrk_fails_def by linarith
  then have "unat (brk s) + unat (sizeof_header_t + sz) < 2 ^ 64"
    using lim p tot by linarith
  then have "unat (brk s + (sizeof_header_t + sz)) = unat (brk s) + unat (sizeof_header_t + sz)"
    by (simp add: unat_add_lem [THEN iffD1])
  with tot le show ?thesis by simp
qed

lemma arena_carve:
  assumes ar: "arena s bs"
    and nf: "\<not> sbrk_fails (sizeof_header_t + sz) s"
    and rng: "unat sz + 24 < 2 ^ 63"
  shows "arena (s\<lparr>brk := brk s + (sizeof_header_t + sz),
              metadata_size := (metadata_size s)(brk s := sz),
              metadata_is_free := (metadata_is_free s)(brk s := 0),
              metadata_next := (if tail s \<noteq> 0
                                then (metadata_next s)(brk s := 0, tail s := brk s)
                                else (metadata_next s)(brk s := 0)),
              head := (if head s = 0 then brk s else head s),
              tail := brk s\<rparr>) (bs @ [brk s])"
    (is "arena ?s' _")
proof -
  from ar have pth: "path (metadata_next s) (head s) bs 0"
    and tl: "tail s = (if bs = [] then 0 else last bs)"
    and cont: "contiguous s bs"
    and b0: "brk s \<noteq> 0"
    and lim: "unat (brk s) \<le> unat (brk_max s)" "unat (brk_max s) < 2 ^ 63"
    by (simp_all add: arena_def)
  note g = grow_ok [OF nf rng lim(2)]
  have notin: "brk s \<notin> set bs"
  proof
    assume "brk s \<in> set bs"
    then have "unat (brk s) + unat sizeof_header_t + unat (metadata_size s (brk s)) \<le> unat (brk s)"
      using contiguous_end_le [OF cont] by blast
    then show False by (simp add: unat_sizeof_header_t)
  qed
  have c: "contiguous ?s' (bs @ [brk s])"
    using cont notin g by (intro contiguous_snoc [of s]) auto
  have nb: "brk s + (sizeof_header_t + sz) \<noteq> 0"
    using g by (metis add_is_0 unat_0 unat_sizeof_header_t zero_neq_numeral)
  have p: "path (metadata_next ?s') (head ?s') (bs @ [brk s]) 0"
  proof (cases bs rule: rev_cases)
    case Nil
    then have "head s = 0" "tail s = 0" using pth tl by simp_all
    then show ?thesis using Nil b0 by simp
  next
    case (snoc xs q)
    then have q: "tail s = q" "q \<noteq> 0" "head s \<noteq> 0" "q \<noteq> brk s"
      using tl pth notin path_hd [OF pth] by (auto simp: path_snoc)
    have d: "q \<notin> set xs" using contiguous_distinct [OF cont] snoc by simp
    have "path ((metadata_next s)(brk s := 0)) (head s) (xs @ [q]) 0"
      using pth notin path_upd_other [of "brk s" bs "metadata_next s" 0 "head s" 0]
      unfolding snoc by blast
    then have "path ((metadata_next s)(brk s := 0, q := brk s)) (head s) (xs @ [q]) (brk s)"
      using d by (rule path_upd_last)
    then have "path ((metadata_next s)(brk s := 0, q := brk s)) (head s) ((xs @ [q]) @ [brk s]) 0"
      using b0 q by (subst path_snoc) simp
    then show ?thesis using q snoc by simp
  qed
  show ?thesis
    unfolding arena_def using p c nb g lim by simp
qed

lemma arena_is_free_upd:
  "arena (s\<lparr>metadata_is_free := f\<rparr>) bs = arena s bs"
  using contiguous_cong [of bs "s\<lparr>metadata_is_free := f\<rparr>" s] by (simp add: arena_def)

lemma arena_mem_upd:
  "arena (s\<lparr>mem := f\<rparr>) bs = arena s bs"
  using contiguous_cong [of bs "s\<lparr>mem := f\<rparr>" s] by (simp add: arena_def)

lemma arena_brk_not_minus1: "arena s bs \<Longrightarrow> brk s \<noteq> - 1"
proof
  assume a: "arena s bs" and "brk s = - 1"
  then have "unat (brk s) = 2 ^ 64 - 1"
    by (simp add: unsigned_minus_1_eq_mask mask_eq_exp_minus_1)
  moreover have "unat (brk s) < 2 ^ 63" using a by (simp add: arena_def)
  ultimately show False by simp
qed

lemma arena_malloc:
  assumes ar: "arena s bs" and rng: "unat sz + 24 < 2 ^ 63"
  shows "\<exists>p s' bs'. malloc s sz = Some (p, s') \<and> arena s' bs' \<and> set bs \<subseteq> set bs'"
proof (cases "sz = 0")
  case True
  then show ?thesis using ar by (auto simp: malloc_def)
next
  case nz: False
  from ar have pth: "path (metadata_next s) (head s) bs 0" by (simp add: arena_def)
  from check_for_block_loop_total [OF pth, of sz]
  consider (none) "check_for_block s sz = Some 0" "\<forall>b\<in>set bs. \<not> fits s sz b"
    | (found) h where "check_for_block s sz = Some h" "h \<noteq> 0"
    unfolding check_for_block_def by blast
  then show ?thesis
  proof cases
    case found
    then have "malloc s sz =
        Some (h + sizeof_header_t, s\<lparr>metadata_is_free := (metadata_is_free s)(h := 0)\<rparr>)"
      using nz by (simp add: malloc_def)
    then show ?thesis using ar arena_is_free_upd by blast
  next
    case none
    show ?thesis
    proof (cases "sbrk_fails (sizeof_header_t + sz) s")
      case True
      then have "malloc s sz = Some (0, s)" using nz pth none(2) by (intro malloc_sbrk_fails)
      then show ?thesis using ar by blast
    next
      case False
      note carve = malloc_carve [OF nz pth none(2) False arena_brk_not_minus1 [OF ar]]
      have "set bs \<subseteq> set (bs @ [brk s])" by auto
      then show ?thesis using carve arena_carve [OF ar False rng] by blast
    qed
  qed
qed

lemma path_append:
  "path nxt a (xs @ ys) b \<longleftrightarrow> (\<exists>m. path nxt a xs m \<and> path nxt m ys b)"
  by (induction xs arbitrary: a) auto

lemma arena_block_bounds:
  assumes ar: "arena s bs" and hb: "h \<in> set bs"
  shows "h \<noteq> 0" and "h + sizeof_header_t \<noteq> 0" and "unat h < unat (brk s)"
proof -
  from ar have pth: "path (metadata_next s) (head s) bs 0" and cont: "contiguous s bs"
    and lim: "unat (brk s) \<le> unat (brk_max s)" "unat (brk_max s) < 2 ^ 63"
    by (simp_all add: arena_def)
  have le: "unat h + unat sizeof_header_t + unat (metadata_size s h) \<le> unat (brk s)"
    using contiguous_end_le [OF cont] hb by blast
  then show "unat h < unat (brk s)" by (simp add: unat_sizeof_header_t)
  have "(2::nat) ^ 63 < 2 ^ 64" by simp
  then have "unat h + unat sizeof_header_t < 2 ^ 64" using le lim by linarith
  then have "unat (h + sizeof_header_t) = unat h + unat sizeof_header_t"
    by (simp add: unat_add_lem [THEN iffD1])
  then show "h + sizeof_header_t \<noteq> 0"
    by (metis add_is_0 unat_0 unat_sizeof_header_t zero_neq_numeral)
  obtain xs ys where "bs = xs @ h # ys" using hb by (meson split_list)
  then show "h \<noteq> 0" using pth by (auto simp: path_append)
qed

lemma arena_free:
  assumes ar: "arena s bs" and hb: "h \<in> set bs"
  shows "\<exists>s' bs'. free s (h + sizeof_header_t) = Some s' \<and> arena s' bs' \<and>
           set bs - {h} \<subseteq> set bs' \<and> set bs' \<subseteq> set bs"
proof (cases "h + sizeof_header_t + metadata_size s h = brk s")
  case False
  have "free s (h + sizeof_header_t) =
        Some (s\<lparr>metadata_is_free := (metadata_is_free s)(h := 1)\<rparr>)"
    using False arena_block_bounds(2) [OF ar hb] by (simp add: free_def sbrk_zero)
  then show ?thesis using ar arena_is_free_upd by blast
next
  case e: True
  from ar have pth: "path (metadata_next s) (head s) bs 0"
    and cont: "contiguous s bs"
    and lim: "unat (brk s) \<le> unat (brk_max s)" "unat (brk_max s) < 2 ^ 63"
    by (simp_all add: arena_def)
  note fr = free_at_break_lemma [OF ar hb e]
  note fr_last = fr [THEN conjunct1]
  note fr_free = fr [THEN conjunct2, THEN conjunct1]
  note fr_sole = fr [THEN conjunct2, THEN conjunct2, THEN conjunct1]
  have newbrk: "brk s - (sizeof_header_t + metadata_size s h) = h"
    using e by (metis add.assoc add_diff_cancel_right')
  have ne0: "bs \<noteq> []" using hb by auto
  have hl: "bs = butlast bs @ [h]" using fr_last ne0 by simp
  have dist: "distinct (butlast bs @ [h])" using contiguous_distinct [OF cont] hl by simp
  then have hnot: "h \<notin> set (butlast bs)" by simp
  note bnd = arena_block_bounds [OF ar hb]
  have "set bs = insert h (set (butlast bs))" by (subst hl) simp
  then have sub: "set bs - {h} \<subseteq> set (butlast bs)" "set (butlast bs) \<subseteq> set bs"
    using hnot by auto
  show ?thesis
  proof (cases "head s = tail s")
    case True
    then have bs: "butlast bs = []" using fr_sole by simp
    have "arena (s\<lparr>head := 0, tail := 0, brk := h\<rparr>) []"
      using bnd lim by (simp add: arena_def)
    moreover have "free s (h + sizeof_header_t) = Some (s\<lparr>head := 0, tail := 0, brk := h\<rparr>)"
      using fr_free True newbrk by simp
    ultimately show ?thesis using sub unfolding bs by blast
  next
    case False
    define p where "p = last (butlast bs)"
    have ne: "butlast bs \<noteq> []"
    proof
      assume "butlast bs = []"
      then have "bs = [h]" using hl by simp
      then show False using fr_sole False by simp
    qed
    then have bl: "butlast bs = butlast (butlast bs) @ [p]" by (simp add: p_def)
    have pp: "path (metadata_next s) (head s) (butlast bs) h"
      using pth path_snoc [of "metadata_next s" "head s" "butlast bs" h 0] by (subst (asm) hl) simp
    have "distinct (butlast bs)" using dist by simp
    then have "distinct (butlast (butlast bs) @ [p])" using bl by simp
    then have "p \<notin> set (butlast (butlast bs))" by simp
    moreover have "path (metadata_next s) (head s) (butlast (butlast bs) @ [p]) h"
      using pp bl by simp
    ultimately have "path ((metadata_next s)(p := 0)) (head s) (butlast (butlast bs) @ [p]) 0"
      by (rule path_upd_last [rotated])
    then have p': "path ((metadata_next s)(p := 0)) (head s) (butlast bs) 0" using bl by simp
    have "contiguous s (butlast bs @ [h])" using cont hl by simp
    then have c': "contiguous (s\<lparr>metadata_next := (metadata_next s)(p := 0), tail := p, brk := h\<rparr>)
                (butlast bs)"
      by (rule contiguous_butlast) simp_all
    have a': "arena (s\<lparr>metadata_next := (metadata_next s)(p := 0), tail := p, brk := h\<rparr>) (butlast bs)"
      using p' c' ne bnd lim by (simp add: arena_def p_def)
    have "free s (h + sizeof_header_t) =
          Some (s\<lparr>metadata_next := (metadata_next s)(p := 0), tail := p, brk := h\<rparr>)"
      using fr_free False newbrk by (simp add: p_def)
    then show ?thesis using a' sub by blast
  qed
qed

lemma arena_calloc:
  assumes ar: "arena s bs" and rng: "unat num * unat esize + 24 < 2 ^ 63"
  shows "\<exists>p s' bs'. calloc s num esize = Some (p, s') \<and> arena s' bs' \<and> set bs \<subseteq> set bs'"
proof (cases "num = 0 \<or> esize = 0")
  case True
  then show ?thesis using ar by (auto simp: calloc_def)
next
  case False
  have "(2::nat) ^ 63 < 2 ^ 64" by simp
  then have small: "unat num * unat esize < 2 ^ 64" using rng by linarith
  then have chk: "esize = (num * esize) div num"
    using calloc_overflow_check [of num esize] False by auto
  have "unat (num * esize) = unat num * unat esize"
    using small by (simp add: unat_mult_lem [THEN iffD1])
  then have "unat (num * esize) + 24 < 2 ^ 63" using rng by simp
  from arena_malloc [OF ar this] obtain p s1 bs1
    where m: "malloc s (num * esize) = Some (p, s1)" "arena s1 bs1" "set bs \<subseteq> set bs1"
    by blast
  have "arena (memset s1 p 0 (num * esize)) bs1"
    using m(2) by (simp add: memset_def arena_mem_upd)
  moreover have "calloc s num esize =
      Some (if p = 0 then (0, s1) else (p, memset s1 p 0 (num * esize)))"
    using False chk m(1) by (simp add: calloc_def Let_def)
  ultimately show ?thesis using m(2,3) by (cases "p = 0") auto
qed

lemma arena_realloc:
  assumes ar: "arena s bs"
    and blk: "block = 0 \<or> block - sizeof_header_t \<in> set bs"
    and rng: "unat sz + 24 < 2 ^ 63"
  shows "\<exists>p s' bs'. realloc s block sz = Some (p, s') \<and> arena s' bs'"
proof (cases "block = 0 \<or> sz = 0")
  case True
  then show ?thesis using arena_malloc [OF ar rng] by (auto simp: realloc_def)
next
  case False
  define h where "h = block - sizeof_header_t"
  have hb: "h \<in> set bs" and b: "block = h + sizeof_header_t" using blk False by (simp_all add: h_def)
  show ?thesis
  proof (cases "sz \<le> metadata_size s h")
    case True
    then show ?thesis using False ar by (auto simp: realloc_def h_def)
  next
    case big: False
    from arena_malloc [OF ar rng] obtain p s1 bs1
      where m: "malloc s sz = Some (p, s1)" "arena s1 bs1" "set bs \<subseteq> set bs1"
      by blast
    show ?thesis
    proof (cases "p = 0")
      case True
      then show ?thesis using False big m by (auto simp: realloc_def h_def)
    next
      case pn: False
      define s2 where "s2 = memcpy s1 p block (metadata_size s1 h)"
      have "arena s2 bs1" using m(2) by (simp add: s2_def memcpy_def arena_mem_upd)
      moreover have "h \<in> set bs1" using hb m(3) by blast
      ultimately obtain s3 bs3 where f: "free s2 (h + sizeof_header_t) = Some s3" "arena s3 bs3"
        using arena_free by blast
      have "realloc s block sz = Some (p, s3)"
        using False big m(1) pn f(1) unfolding b s2_def by (simp add: realloc_def)
      then show ?thesis using f(2) by blast
    qed
  qed
qed

text \<open>What an arena gives: the three ways of being empty agree, the addresses along the
  list increase strictly, and the tail's link is null.\<close>

lemma arena_list:
  assumes "arena s bs"
  shows "(head s = 0 \<longleftrightarrow> bs = []) \<and> (tail s = 0 \<longleftrightarrow> bs = []) \<and>
         sorted_wrt (\<lambda>a b. unat a < unat b) bs \<and>
         (bs \<noteq> [] \<longrightarrow> metadata_next s (tail s) = 0)"
proof -
  from assms have pth: "path (metadata_next s) (head s) bs 0"
    and tl: "tail s = (if bs = [] then 0 else last bs)"
    and cont: "contiguous s bs"
    by (simp_all add: arena_def)
  have h: "head s = 0 \<longleftrightarrow> bs = []" using pth by (cases bs) auto
  have l: "bs \<noteq> [] \<Longrightarrow> last bs \<noteq> 0 \<and> metadata_next s (last bs) = 0"
    using pth by (cases bs rule: rev_cases) (auto simp: path_snoc)
  have t: "tail s = 0 \<longleftrightarrow> bs = []" using tl l by auto
  have srt: "sorted_wrt (\<lambda>a b. unat a < unat b) bs"
    using cont
  proof (induction bs)
    case Nil
    then show ?case by simp
  next
    case (Cons a bs)
    then show ?case using contiguous_less [OF Cons.prems] contiguous_tl [OF Cons.prems] by simp
  qed
  show ?thesis using h t srt l tl by auto
qed

text \<open>In a contiguous arena no two listed blocks share a byte.\<close>

lemma contiguous_end_le_later:
  "contiguous s (a # bs) \<Longrightarrow>
   \<forall>b\<in>set bs. unat a + unat sizeof_header_t + unat (metadata_size s a) \<le> unat b"
proof (induction bs arbitrary: a)
  case Nil
  then show ?case by simp
next
  case (Cons c cs)
  have ac: "unat a + unat sizeof_header_t + unat (metadata_size s a) = unat c"
    using Cons.prems by simp
  have "\<forall>b\<in>set cs. unat c + unat sizeof_header_t + unat (metadata_size s c) \<le> unat b"
    using Cons by simp
  then have "\<forall>b\<in>set cs. unat c \<le> unat b" by auto
  with ac show ?case by auto
qed

lemma contiguous_apart:
  "contiguous s bs \<Longrightarrow> a \<in> set bs \<Longrightarrow> b \<in> set bs \<Longrightarrow> a \<noteq> b \<Longrightarrow>
   unat a + unat sizeof_header_t + unat (metadata_size s a) \<le> unat b \<or>
   unat b + unat sizeof_header_t + unat (metadata_size s b) \<le> unat a"
proof (induction bs)
  case Nil
  then show ?case by simp
next
  case (Cons c cs)
  note later = contiguous_end_le_later [OF Cons.prems(1)]
  show ?case
  proof (cases "a \<in> set cs \<and> b \<in> set cs")
    case True
    then show ?thesis using Cons contiguous_tl by blast
  next
    case False
    then consider "a = c" "b \<in> set cs" | "b = c" "a \<in> set cs"
      using Cons.prems by auto
    then show ?thesis using later by cases auto
  qed
qed

subsection \<open>The example arenas\<close>

lemma arena_arena0: "arena arena0 []"
  by (simp add: arena_def arena0_def)

lemma malloc_arena0: "malloc arena0 10 = Some (4120, arena_a)"
  using malloc_carve [of 10 arena0 "[]"]
  by (auto simp: arena0_def arena_a_def fits_def sizeof_header_t_val sbrk_fails_def fun_eq_iff)

lemma malloc_arena_a: "malloc arena_a 20 = Some (4154, arena_ab)"
  using malloc_carve [of 20 arena_a "[4096]"]
  by (auto simp: arena_a_def arena_ab_def fits_def sizeof_header_t_val sbrk_fails_def fun_eq_iff)

lemma arena_arena_ab: "arena arena_ab [4096, 4130]"
  by (simp add: arena_def arena_ab_def sizeof_header_t_val)

text \<open>On the self-linked list of \<open>arena_wrap2\<close> the search never returns.\<close>

lemma loop_at_cycle:
  "check_for_block_loop arena_wrap2 1 4174 = None"
proof (rule ccontr)
  assume "check_for_block_loop arena_wrap2 1 4174 \<noteq> None"
  then obtain y where y: "check_for_block_loop arena_wrap2 1 4174 = Some y" by auto
  have "\<not> (arena_wrap2 = arena_wrap2 \<and> (1::64 word) = 1 \<and> (4174::64 word) = 4174)"
  proof (rule check_for_block_loop.raw_induct
      [where P = "\<lambda>s sz cur y. \<not> (s = arena_wrap2 \<and> sz = 1 \<and> cur = 4174)", OF _ y],
      goal_cases)
    case (1 f s sz cur r)
    show ?case
    proof
      assume a: "s = arena_wrap2 \<and> sz = 1 \<and> cur = 4174"
      then have "f s sz cur = Some r"
        using 1(2) by (simp add: arena_wrap2_def arena_ab_def)
      then show False using 1(1) a by blast
    qed
  qed
  then show False by simp
qed

lemma malloc_never_returns: "malloc arena_wrap2 1 = None"
proof -
  have "check_for_block_loop arena_wrap2 1 4130 = None"
    using loop_at_cycle
    by (subst check_for_block_loop.simps) (simp add: arena_wrap2_def arena_ab_def)
  then have "check_for_block_loop arena_wrap2 1 4096 = None"
    by (subst check_for_block_loop.simps) (simp add: arena_wrap2_def arena_ab_def)
  then have "check_for_block arena_wrap2 1 = None"
    by (simp add: check_for_block_def arena_wrap2_def arena_ab_def)
  then show ?thesis by (simp add: malloc_def)
qed

subsection \<open>Claims\<close>

text \<open>
  C1. A request of non-zero size walks the list from \<open>head\<close>; \<open>pre\<close> are the blocks
  passed over, none of which is free and large enough, and \<open>h\<close> is the first block that
  is. \<open>malloc\<close> then returns the payload address of \<open>h\<close> and the only change to the
  state is that \<open>h\<close> is no longer free: its recorded size stays, however much larger than
  the request, and no block behind \<open>h\<close> is looked at.
\<close>

theorem malloc_first_fit:
  assumes "sz \<noteq> 0"
    and "path (metadata_next s) (head s) pre h"
    and "\<forall>b\<in>set pre. \<not> fits s sz b"
    and "h \<noteq> 0" and "fits s sz h"
  shows "malloc s sz =
         Some (h + sizeof_header_t, s\<lparr>metadata_is_free := (metadata_is_free s)(h := 0)\<rparr>)"
proof -
  have "check_for_block s sz = Some h"
    unfolding check_for_block_def using assms(2-5) by (rule check_for_block_loop_first)
  then show ?thesis using assms(1,4) by (simp add: malloc_def)
qed

theorem malloc_first_fit_witness:
  "malloc (arena_ab\<lparr>metadata_is_free := (\<lambda>_. 1)\<rparr>) 15 =
     Some (4154, arena_ab\<lparr>metadata_is_free := (\<lambda>_. 1)(4130 := 0)\<rparr>)"
  using malloc_first_fit [of 15 "arena_ab\<lparr>metadata_is_free := (\<lambda>_. 1)\<rparr>" "[4096]" 4130]
  by (simp add: arena_ab_def fits_def sizeof_header_t_val)

text \<open>
  C2. In an arena as the allocator leaves it, a listed block \<open>h\<close> whose payload ends
  at the break is the last of the list, and releasing it lowers the break by its header
  and its payload, once: whatever the block before it holds, the break moves no further.
  When it is the only block (\<open>head = tail\<close>), \<open>head\<close> and \<open>tail\<close> become null;
  otherwise the scan from \<open>head\<close> reaches the block whose \<open>next\<close> is \<open>h\<close>, clears
  that link and makes that block the tail. Nothing else changes.
\<close>

theorem free_at_break:
  assumes ar: "arena s bs" and hb: "h \<in> set bs"
    and e: "h + sizeof_header_t + metadata_size s h = brk s"
  shows "h = last bs \<and>
     free s (h + sizeof_header_t) =
       Some (if head s = tail s
             then s\<lparr>head := 0, tail := 0,
                    brk := brk s - (sizeof_header_t + metadata_size s h)\<rparr>
             else s\<lparr>metadata_next := (metadata_next s)(last (butlast bs) := 0),
                    tail := last (butlast bs),
                    brk := brk s - (sizeof_header_t + metadata_size s h)\<rparr>) \<and>
     (head s = tail s \<longleftrightarrow> bs = [h]) \<and>
     (head s \<noteq> tail s \<longrightarrow> metadata_next s (last (butlast bs)) = h)"
  using assms by (rule free_at_break_lemma)

theorem free_at_break_witness:
  "free arena_ab 4154 =
     Some (arena_ab\<lparr>metadata_next := (metadata_next arena_ab)(4096 := 0), tail := 4096,
                     brk := 4130\<rparr>) \<and>
   free arena_a 4120 = Some (arena_a\<lparr>head := 0, tail := 0, brk := 4096\<rparr>)"
  using free_at_break [of arena_ab "[4096, 4130]" 4130] free_at_break [of arena_a "[4096]" 4096]
  by (simp add: arena_def arena_ab_def arena_a_def sizeof_header_t_val)

text \<open>
  C3. In an arena as the allocator leaves it, releasing a listed block \<open>h\<close> whose
  payload does not end at the break sets the \<open>is_free\<close> of \<open>h\<close> to 1 and changes
  nothing else: sizes, links, \<open>head\<close>, \<open>tail\<close>, the break and every other block's flag
  are as before, and no block is merged. Every other listed block lies wholly before the
  header of \<open>h\<close> or wholly behind its payload, so the one store into the header of \<open>h\<close>
  reaches none of them.
\<close>

theorem free_not_at_break:
  assumes "arena s bs" and "h \<in> set bs"
    and "h + sizeof_header_t + metadata_size s h \<noteq> brk s"
  shows "free s (h + sizeof_header_t) =
           Some (s\<lparr>metadata_is_free := (metadata_is_free s)(h := 1)\<rparr>) \<and>
         (\<forall>b\<in>set bs. b \<noteq> h \<longrightarrow>
            unat b + unat sizeof_header_t + unat (metadata_size s b) \<le> unat h \<or>
            unat h + unat sizeof_header_t + unat (metadata_size s h) \<le> unat b)"
proof -
  have "free s (h + sizeof_header_t) =
        Some (s\<lparr>metadata_is_free := (metadata_is_free s)(h := 1)\<rparr>)"
    using assms(3) arena_block_bounds(2) [OF assms(1,2)] by (simp add: free_def sbrk_zero)
  moreover have "contiguous s bs" using assms(1) by (simp add: arena_def)
  ultimately show ?thesis using contiguous_apart [of s bs _ h] assms(2) by blast
qed

theorem free_not_at_break_witness:
  "free arena_ab 4120 = Some (arena_ab\<lparr>metadata_is_free := (\<lambda>_. 0)(4096 := 1)\<rparr>)"
  using free_not_at_break [of arena_ab "[4096, 4130]" 4096]
  by (simp add: arena_def arena_ab_def sizeof_header_t_val)

text \<open>
  C4. When no block of the list is free and large enough and \<open>sbrk\<close> cannot extend the
  region by the header and the payload, \<open>malloc\<close> returns the null pointer and the state
  is the one before the call.
\<close>

theorem malloc_growth_failure:
  assumes "sz \<noteq> 0"
    and "path (metadata_next s) (head s) bs 0"
    and "\<forall>b\<in>set bs. \<not> fits s sz b"
    and "sbrk_fails (sizeof_header_t + sz) s"
  shows "malloc s sz = Some (0, s)"
  using assms by (rule malloc_sbrk_fails)

theorem malloc_growth_failure_witness:
  "malloc arena_ab 100 = Some (0, arena_ab)"
  using malloc_growth_failure [of 100 arena_ab "[4096, 4130]"]
  by (simp add: arena_ab_def fits_def sizeof_header_t_val sbrk_fails_def)

text \<open>
  C5. \<open>calloc\<close> returns the null pointer and leaves the state (the break included)
  alone when either argument is zero or the product does not fit 64 bits; with a
  non-zero count, the source's test, dividing the wrapped product by the count and
  comparing with the element size, fires exactly when the product overflows.
\<close>

theorem calloc_rejects:
  "(num = 0 \<or> esize = 0 \<or> 2 ^ 64 \<le> unat num * unat esize \<longrightarrow>
      calloc s num esize = Some (0, s)) \<and>
   (num \<noteq> 0 \<longrightarrow>
      (esize \<noteq> (num * esize) div num) = (2 ^ 64 \<le> unat num * unat esize))"
  using calloc_overflow_check [of num esize] by (auto simp: calloc_def Let_def)

theorem calloc_rejects_witness:
  "calloc arena0 0 8 = Some (0, arena0) \<and> calloc arena0 8 0 = Some (0, arena0) \<and>
   calloc arena0 (2 ^ 32) (2 ^ 32) = Some (0, arena0) \<and>
   calloc arena0 3 6148914691236517206 = Some (0, arena0)"
  using calloc_rejects [of 0 8 arena0] calloc_rejects [of 8 0 arena0]
    calloc_rejects [of "2 ^ 32" "2 ^ 32" arena0] calloc_rejects [of 3 6148914691236517206 arena0]
  by simp

text \<open>
  C6. \<open>realloc\<close> of a non-null pointer to a non-zero size that the block's recorded
  size already covers returns the same pointer and the same state.
\<close>

theorem realloc_in_place:
  assumes "block \<noteq> 0" and "sz \<noteq> 0"
    and "sz \<le> metadata_size s (block - sizeof_header_t)"
  shows "realloc s block sz = Some (block, s)"
  using assms by (simp add: realloc_def)

theorem realloc_in_place_witness:
  "realloc arena_ab 4120 8 = Some (4120, arena_ab)"
  using realloc_in_place [of 4120 8 arena_ab]
  by (simp add: arena_ab_def sizeof_header_t_val)

text \<open>
  C7. \<open>realloc\<close> of a non-null pointer to a size larger than the block's, when no listed
  block fits and \<open>sbrk\<close> fails, returns the null pointer and the state before the call:
  the old block is not released, its flag and its payload bytes are as they were.
\<close>

theorem realloc_failure_keeps_block:
  assumes "block \<noteq> 0"
    and "metadata_size s (block - sizeof_header_t) < sz"
    and "path (metadata_next s) (head s) bs 0"
    and "\<forall>b\<in>set bs. \<not> fits s sz b"
    and "sbrk_fails (sizeof_header_t + sz) s"
  shows "realloc s block sz = Some (0, s)"
proof -
  from assms(2) have nz: "sz \<noteq> 0" by (auto simp: word_less_def)
  then have "malloc s sz = Some (0, s)" using assms(3-5) by (rule malloc_sbrk_fails)
  then show ?thesis using assms(1,2) nz by (simp add: realloc_def Let_def not_le)
qed

theorem realloc_failure_keeps_block_witness:
  "realloc arena_ab 4120 100 = Some (0, arena_ab)"
  using realloc_failure_keeps_block [of 4120 arena_ab 100 "[4096, 4130]"]
  by (simp add: arena_ab_def fits_def sizeof_header_t_val sbrk_fails_def)

text \<open>
  C8. The header is to be a multiple of 16 bytes, so that a payload lies a multiple of 16
  past its header. On LP64 the \<open>metadata\<close> struct takes 24 bytes, more than the
  16-byte \<open>stub\<close>, and the union's alignment is 8: \<open>sizeof(header_t)\<close> is 24, which is
  8 modulo 16. The first \<open>malloc(10)\<close> in the empty arena puts the header at the break,
  4096, and returns 4096 + 24, which is 8 modulo 16 past the header. Requests are not
  rounded either: the second header then starts at 4130, which is 2 modulo 16.
\<close>

theorem header_not_16_aligned:
  "header_layout = 24 \<and> header_layout mod 16 = 8 \<and>
   malloc arena0 10 = Some (4096 + 24, arena_a) \<and> head arena_a = 4096 \<and>
   unat (4096 + 24 - head arena_a) mod 16 = 8 \<and>
   malloc arena_a 20 = Some (4130 + 24, arena_ab) \<and> tail arena_ab = 4130 \<and>
   unat (tail arena_ab) mod 16 = 2"
  using malloc_carve [of 10 arena0 "[]"] malloc_carve [of 20 arena_a "[4096]"]
  by (auto simp: header_layout_val arena0_def arena_a_def arena_ab_def fits_def
      sizeof_header_t_val sbrk_fails_def fun_eq_iff)

text \<open>
  C9. After every completed operation the list from \<open>head\<close> is to end at \<open>tail\<close> with
  an empty \<open>next\<close>. \<open>malloc\<close> adds the header size to the request without a check:
  for \<open>malloc(SIZE_MAX - 23)\<close> the sum wraps to 0, \<open>sbrk(0)\<close> succeeds without moving
  the break, and the new block's header is put at the break, 4174. The following
  \<open>malloc(1)\<close> is given the same address by \<open>sbrk\<close>, returns the same payload pointer
  4198 a second time, and links the tail to itself: \<open>tail->next = tail\<close>. A third
  \<open>malloc(1)\<close> walks that list and does not return.
\<close>

theorem malloc_size_wraps_to_cycle:
  "malloc arena_ab 18446744073709551592 = Some (4198, arena_wrap1) \<and>
   malloc arena_wrap1 1 = Some (4198, arena_wrap2) \<and>
   tail arena_wrap2 = 4174 \<and> metadata_next arena_wrap2 (tail arena_wrap2) = 4174 \<and>
   malloc arena_wrap2 1 = None"
proof -
  have "malloc arena_ab 18446744073709551592 = Some (4198, arena_wrap1)"
    using malloc_carve [of 18446744073709551592 arena_ab "[4096, 4130]"]
    by (auto simp: arena_ab_def arena_wrap1_def fits_def sizeof_header_t_val sbrk_fails_def fun_eq_iff)
  moreover have "malloc arena_wrap1 1 = Some (4198, arena_wrap2)"
    using malloc_carve [of 1 arena_wrap1 "[4096, 4130, 4174]"]
    by (auto simp: arena_ab_def arena_wrap1_def arena_wrap2_def fits_def sizeof_header_t_val
        sbrk_fails_def fun_eq_iff)
  ultimately show ?thesis using malloc_never_returns by (simp add: arena_wrap2_def arena_ab_def)
qed

text \<open>
  C10. \<open>realloc\<close> to size zero is \<open>malloc(0)\<close>: it returns the null pointer and the state
  is unchanged, so the block is not released.
\<close>

theorem realloc_zero_size:
  "realloc s block 0 = Some (0, s)"
  by (simp add: realloc_def malloc_def)

theorem realloc_zero_size_witness:
  "realloc arena_ab 4120 0 = Some (0, arena_ab)"
  using realloc_zero_size [of arena_ab 4120] by simp

end
